theory Spec2Isabelle
  imports Main "HOL-Library.Word"
begin

unbundle bit_operations_syntax

section \<open>Lock-free containers of Utilities/lockless.h\<close>

text \<open>
  The header defines seven class templates. Each is embedded below as a state type with
  one HOL function per member function. An atomic read-modify-write is one function
  application; the fences have no effect on a sequential run and are left out. Template
  parameters that are numbers (\<open>N\<close>, \<open>Size\<close>) are ordinary arguments, the value of a
  default-constructed \<open>T\<close> or \<open>K\<close> is an argument as well.
\<close>

type_synonym u32 = "32 word"
type_synonym u64 = "64 word"

subsection \<open>lf\_spsc: fixed-size single-producer single-consumer queue\<close>

text \<open>
  \<open>m_push\<close> and \<open>m_pop\<close> are \<open>std::uint32_t\<close> and wrap around; \<open>m_data\<close> is the array of
  \<open>N\<close> slots. The template parameter \<open>N\<close> is a \<open>std::uint32_t\<close>.
\<close>

record 'a lf_spsc =
  m_push :: u32
  m_pop :: u32
  m_data :: "'a list"

text \<open>The \<open>static_assert\<close> of the class: \<open>N && (1u << 31) % N == 0\<close>.\<close>

definition valid_N :: "u32 \<Rightarrow> bool" where
  "valid_N N = (N \<noteq> 0 \<and> (push_bit 31 1 :: u32) mod N = 0)"

text \<open>The default member initialisers: both cursors 0, every slot value-initialised.\<close>

definition lf_spsc_init :: "u32 \<Rightarrow> 'a \<Rightarrow> 'a lf_spsc" where
  "lf_spsc_init N d = \<lparr>m_push = 0, m_pop = 0, m_data = replicate (unat N) d\<rparr>"

text \<open>\<open>try_push\<close>: the result is the returned flag and the ring afterwards.\<close>

definition try_push :: "u32 \<Rightarrow> 'a \<Rightarrow> ('a, 'z) lf_spsc_scheme \<Rightarrow> bool \<times> ('a, 'z) lf_spsc_scheme" where
  "try_push N data s =
     (let pos = m_push s in
      if pos - m_pop s \<ge> N then (False, s)
      else (True, s\<lparr>m_data := (m_data s)[unat (pos mod N) := data], m_push := pos + 1\<rparr>))"

text \<open>\<open>operator T*\<close> of lf\_spsc: the slot index behind the returned pointer, \<open>None\<close> for \<open>nullptr\<close>.\<close>

definition push_ptr :: "u32 \<Rightarrow> ('a, 'z) lf_spsc_scheme \<Rightarrow> nat option" where
  "push_ptr N s =
     (let pos = m_push s in
      if pos - m_pop s \<ge> N then None else Some (unat (pos mod N)))"

definition end_push :: "u32 \<Rightarrow> ('a, 'z) lf_spsc_scheme \<Rightarrow> ('a, 'z) lf_spsc_scheme" where
  "end_push N s =
     (let pos = m_push s in
      if pos - m_pop s < N then s\<lparr>m_push := pos + 1\<rparr> else s)"

text \<open>
  \<open>try_pop\<close>: \<open>out\<close> is written only on success, so the result carries \<open>Some\<close> of the value read
  for \<open>true\<close> and \<open>None\<close> for \<open>false\<close>. The test \<open>m_push - pos <= 0\<close> is on unsigned values.
\<close>

definition try_pop :: "u32 \<Rightarrow> ('a, 'z) lf_spsc_scheme \<Rightarrow> 'a option \<times> ('a, 'z) lf_spsc_scheme" where
  "try_pop N s =
     (let pos = m_pop s in
      if m_push s - pos \<le> 0 then (None, s)
      else (Some (m_data s ! unat (pos mod N)), s\<lparr>m_pop := pos + 1\<rparr>))"

definition end_pop :: "('a, 'z) lf_spsc_scheme \<Rightarrow> ('a, 'z) lf_spsc_scheme" where
  "end_pop s =
     (let pos = m_pop s in
      if m_push s - pos > 0 then s\<lparr>m_pop := pos + 1\<rparr> else s)"

definition size_spsc :: "('a, 'z) lf_spsc_scheme \<Rightarrow> u32" where
  "size_spsc s = m_push s - m_pop s"

text \<open>Direct access \<open>operator [](i)\<close>: the slot \<open>(m_pop + i) % N\<close>, with \<open>i\<close> a \<open>std::size_t\<close>.\<close>

definition at_spsc :: "u32 \<Rightarrow> ('a, 'z) lf_spsc_scheme \<Rightarrow> u64 \<Rightarrow> 'a" where
  "at_spsc N s i = m_data s ! unat ((ucast (m_pop s) + i) mod ucast N)"

text \<open>A run of the producer's \<open>try_push\<close> and the consumer's \<open>try_pop\<close> calls, in program order.
  The run collects the values of the pushes that returned \<open>true\<close> and the values the
  successful pops delivered.\<close>

datatype 'a spsc_op = Try_push 'a | Try_pop

fun spsc_run :: "u32 \<Rightarrow> 'a spsc_op list \<Rightarrow> 'a list \<times> 'a list \<times> 'a lf_spsc \<Rightarrow> 'a list \<times> 'a list \<times> 'a lf_spsc" where
  "spsc_run N [] c = c"
| "spsc_run N (Try_push v # ops) (acc, del, s) =
     (case try_push N v s of
        (ok, s') \<Rightarrow> spsc_run N ops (if ok then acc @ [v] else acc, del, s'))"
| "spsc_run N (Try_pop # ops) (acc, del, s) =
     (case try_pop N s of
        (None, s') \<Rightarrow> spsc_run N ops (acc, del, s')
      | (Some v, s') \<Rightarrow> spsc_run N ops (acc, del @ [v], s'))"

text \<open>The values the ring holds, oldest first: the slots of the cursors \<open>m_pop, m_pop + 1, ...\<close>
  up to \<open>m_push\<close>.\<close>

definition ring_contents :: "u32 \<Rightarrow> ('a, 'z) lf_spsc_scheme \<Rightarrow> 'a list" where
  "ring_contents N s =
     map (\<lambda>i. m_data s ! unat ((m_pop s + of_nat i) mod N)) [0 ..< unat (size_spsc s)]"

text \<open>The states a ring goes through from the empty one under the four cursor operations.\<close>

inductive spsc_reachable :: "u32 \<Rightarrow> 'a \<Rightarrow> 'a lf_spsc \<Rightarrow> bool" for N :: u32 and d :: 'a where
  reach_init: "spsc_reachable N d (lf_spsc_init N d)"
| reach_try_push: "spsc_reachable N d s \<Longrightarrow> spsc_reachable N d (snd (try_push N v s))"
| reach_try_pop: "spsc_reachable N d s \<Longrightarrow> spsc_reachable N d (snd (try_pop N s))"
| reach_end_push: "spsc_reachable N d s \<Longrightarrow> spsc_reachable N d (end_push N s)"
| reach_end_pop: "spsc_reachable N d s \<Longrightarrow> spsc_reachable N d (end_pop s)"

subsection \<open>lf\_mpsc: fixed-size multi-producer single-consumer queue\<close>

text \<open>
  The class derives from lf\_spsc and adds the atomic 64-bit word \<open>m_lock\<close>: the low half
  counts the write pointers handed out (\<open>c_ack\<close> units), the high half the writes that
  were finished (\<open>c_rel\<close> units).
\<close>

record 'a lf_mpsc = "'a lf_spsc" +
  m_lock :: u64

definition c_ack :: u64 where
  "c_ack = push_bit 0 1"

definition c_rel :: u64 where
  "c_rel = push_bit 32 1"

definition lf_mpsc_init :: "u32 \<Rightarrow> 'a \<Rightarrow> 'a lf_mpsc" where
  "lf_mpsc_init N d = \<lparr>m_push = 0, m_pop = 0, m_data = replicate (unat N) d, m_lock = 0\<rparr>"

text \<open>
  \<open>release\<close>: \<open>m_push += value % c_rel\<close> adds a 64-bit value to the 32-bit cursor and keeps
  the low 32 bits; \<open>compare_and_swap_test(value, 0)\<close> stores 0 only if \<open>m_lock\<close> still holds
  \<open>value\<close>.
\<close>

definition release :: "u64 \<Rightarrow> 'a lf_mpsc \<Rightarrow> 'a lf_mpsc" where
  "release val s =
     (if val \<noteq> 0 \<and> val mod c_rel = val div c_rel
      then s\<lparr>m_push := m_push s + ucast (val mod c_rel),
             m_lock := (if m_lock s = val then 0 else m_lock s)\<rparr>
      else s)"

text \<open>
  \<open>operator T*\<close> of lf\_mpsc. \<open>fetch_add\<close> returns the word before the addition, \<open>sub_fetch\<close>
  the word after the subtraction. \<open>old % N\<close>, \<open>N - (old % N)\<close> and \<open>(pos + old) % N\<close> are
  computed in 64 bits, \<open>pos - m_pop\<close> in 32 bits and then widened for the comparison.
  The result is the slot index behind the pointer, or \<open>None\<close> for \<open>nullptr\<close>.
\<close>

definition mpsc_push_ptr :: "u32 \<Rightarrow> 'a lf_mpsc \<Rightarrow> nat option \<times> 'a lf_mpsc" where
  "mpsc_push_ptr N s =
     (let old = m_lock s;
          s1 = s\<lparr>m_lock := old + c_ack\<rparr>;
          pos = m_push s1
      in if old mod ucast N \<ge> ucast N \<or> ucast (pos - m_pop s1) \<ge> ucast N - (old mod ucast N)
         then (let w = m_lock s1 - c_ack in (None, release w (s1\<lparr>m_lock := w\<rparr>)))
         else (Some (unat ((ucast pos + old) mod ucast N)), s1))"

definition mpsc_end_push :: "'a lf_mpsc \<Rightarrow> 'a lf_mpsc" where
  "mpsc_end_push s = (let w = m_lock s + c_rel in release w (s\<lparr>m_lock := w\<rparr>))"

definition mpsc_try_push :: "u32 \<Rightarrow> 'a \<Rightarrow> 'a lf_mpsc \<Rightarrow> bool \<times> 'a lf_mpsc" where
  "mpsc_try_push N data s =
     (case mpsc_push_ptr N s of
        (Some i, s1) \<Rightarrow> (True, mpsc_end_push (s1\<lparr>m_data := (m_data s1)[i := data]\<rparr>))
      | (None, s1) \<Rightarrow> (False, s1))"

subsection \<open>lf\_array: growing chain of blocks\<close>

text \<open>
  A block owns its \<open>N\<close> elements and the pointer to the next block; the chain is a value of
  a recursive datatype, \<open>None\<close> for \<open>nullptr\<close>. \<open>operator new\<close> is taken to succeed: the
  allocator is outside the unit.
\<close>

datatype 'a lf_array = Block (m_data_a: "'a list") (m_next: "'a lf_array option")

definition lf_array_new :: "nat \<Rightarrow> 'a \<Rightarrow> 'a lf_array" where
  "lf_array_new N d = Block (replicate N d) None"

text \<open>
  The installation loop of \<open>operator []\<close>: \<open>compare_and_swap(nullptr, _new)\<close> stores the new
  block where the link is null, and otherwise returns the link that is there, which the
  loop follows.
\<close>

fun install :: "'a lf_array \<Rightarrow> 'a lf_array \<Rightarrow> 'a lf_array" where
  "install new (Block dat None) = Block dat (Some new)"
| "install new (Block dat (Some nxt)) = Block dat (Some (install new nxt))"

text \<open>
  \<open>operator [](index)\<close>. The reference returned is given as the number of the block in
  the chain (0 for the object itself) and the slot in that block's \<open>m_data\<close>, together with
  the chain afterwards. The recursion does not end for \<open>N = 0\<close>.
\<close>

partial_function (option) lf_array_at :: "nat \<Rightarrow> 'a \<Rightarrow> 'a lf_array \<Rightarrow> nat \<Rightarrow> ('a lf_array \<times> nat \<times> nat) option" where
  "lf_array_at N d this index =
     (if index < N then Some (this, 0, index)
      else (let this' = (if m_next this = None then install (lf_array_new N d) this else this)
            in case m_next this' of
                 None \<Rightarrow> None
               | Some nxt \<Rightarrow>
                   Option.bind (lf_array_at N d nxt (index - N))
                     (\<lambda>(nxt', b, i). Some (Block (m_data_a this') (Some nxt'), Suc b, i))))"

text \<open>The blocks of a chain, first block first.\<close>

fun blocks :: "'a lf_array \<Rightarrow> 'a list list" where
  "blocks (Block dat None) = [dat]"
| "blocks (Block dat (Some nxt)) = dat # blocks nxt"

text \<open>Reading and writing through a returned reference.\<close>

fun slot_rd :: "'a lf_array \<Rightarrow> nat \<Rightarrow> nat \<Rightarrow> 'a option" where
  "slot_rd (Block dat nxt) 0 i = (if i < length dat then Some (dat ! i) else None)"
| "slot_rd (Block dat None) (Suc b) i = None"
| "slot_rd (Block dat (Some nxt)) (Suc b) i = slot_rd nxt b i"

fun slot_wr :: "'a lf_array \<Rightarrow> nat \<Rightarrow> nat \<Rightarrow> 'a \<Rightarrow> 'a lf_array" where
  "slot_wr (Block dat nxt) 0 i v = Block (dat[i := v]) nxt"
| "slot_wr (Block dat None) (Suc b) i v = Block dat None"
| "slot_wr (Block dat (Some nxt)) (Suc b) i v = Block dat (Some (slot_wr nxt b i v))"

subsection \<open>lf\_fifo: counters on top of lf\_array\<close>

record ctrl_t =
  push :: u32
  pop :: u32

record 'a lf_fifo =
  fifo_base :: "'a lf_array"
  m_ctrl :: ctrl_t

definition size_fifo :: "'a lf_fifo \<Rightarrow> u32" where
  "size_fifo q = push (m_ctrl q)"

text \<open>\<open>push_begin\<close>: \<open>fetch_add\<close> on the \<open>push\<close> half returns the value before the addition.\<close>

definition push_begin :: "u32 \<Rightarrow> 'a lf_fifo \<Rightarrow> u32 \<times> 'a lf_fifo" where
  "push_begin count q = (push (m_ctrl q), q\<lparr>m_ctrl := (m_ctrl q)\<lparr>push := push (m_ctrl q) + count\<rparr>\<rparr>)"

definition peek :: "'a lf_fifo \<Rightarrow> u32" where
  "peek q = pop (m_ctrl q)"

text \<open>\<open>pop_end\<close>: the body of the lambda that \<open>atomic_op\<close> runs on the control word, and the
  member function that stores the word back and returns the lambda's result.\<close>

definition pop_end_op :: "u32 \<Rightarrow> ctrl_t \<Rightarrow> u32 \<times> ctrl_t" where
  "pop_end_op count ctrl =
     (let c1 = ctrl\<lparr>pop := pop ctrl + count\<rparr>;
          c2 = (if pop c1 = push c1 then c1\<lparr>push := 0, pop := 0\<rparr> else c1)
      in (pop c2, c2))"

definition pop_end :: "u32 \<Rightarrow> 'a lf_fifo \<Rightarrow> u32 \<times> 'a lf_fifo" where
  "pop_end count q = (case pop_end_op count (m_ctrl q) of (r, c) \<Rightarrow> (r, q\<lparr>m_ctrl := c\<rparr>))"

subsection \<open>lf\_hashmap: open addressing over lf\_array\<close>

record ('k, 't) pair_t =
  pair_key :: 'k
  pair_value :: 't

record ('k, 't) lf_hashmap =
  m_data_h :: "('k, 't) pair_t lf_array"
  m_default_key_data :: 't

text \<open>What \<open>operator []\<close> returns a reference to: \<open>m_default_key_data\<close>, or the \<open>value\<close> of the
  pair in a slot of a block of \<open>m_data\<close>.\<close>

datatype href = Default_slot | Table_slot nat nat

text \<open>
  The probing loop, from position \<open>pos\<close>. \<open>kd\<close> and \<open>td\<close> are \<open>K{}\<close> and \<open>T{}\<close>.
  \<open>compare_and_swap_test(K{}, key)\<close> stores \<open>key\<close> if the slot's key is \<open>K{}\<close>. The position
  is a \<open>std::size_t\<close>; it is a natural number here.
\<close>

partial_function (option) probe :: "nat \<Rightarrow> 'k \<Rightarrow> 't \<Rightarrow> 'k \<Rightarrow> ('k, 't) pair_t lf_array \<Rightarrow> nat \<Rightarrow> (href \<times> ('k, 't) pair_t lf_array) option" where
  "probe Size kd td k arr pos =
     (case lf_array_at Size \<lparr>pair_key = kd, pair_value = td\<rparr> arr pos of
        None \<Rightarrow> None
      | Some (arr', b, i) \<Rightarrow>
          (case slot_rd arr' b i of
             None \<Rightarrow> None
           | Some pair \<Rightarrow>
               if pair_key pair = k then Some (Table_slot b i, arr')
               else if pair_key pair = kd then Some (Table_slot b i, slot_wr arr' b i (pair\<lparr>pair_key := k\<rparr>))
               else probe Size kd td k arr' (pos + Size)))"

definition hashmap_at :: "nat \<Rightarrow> ('k \<Rightarrow> nat) \<Rightarrow> 'k \<Rightarrow> 't \<Rightarrow> 'k \<Rightarrow> ('k, 't) lf_hashmap \<Rightarrow> (href \<times> ('k, 't) lf_hashmap) option" where
  "hashmap_at Size hash kd td k m =
     (if k = kd then Some (Default_slot, m)
      else (case probe Size kd td k (m_data_h m) (hash k mod Size) of
              None \<Rightarrow> None
            | Some (r, arr') \<Rightarrow> Some (r, m\<lparr>m_data_h := arr'\<rparr>)))"

text \<open>The key an access at probe number \<open>j\<close> of slot \<open>p\<close> finds: that of block \<open>j\<close> if the chain has
  it, \<open>K{}\<close> in a block that is yet to be allocated.\<close>

definition probed_key :: "'k \<Rightarrow> ('k, 't) pair_t lf_array \<Rightarrow> nat \<Rightarrow> nat \<Rightarrow> 'k" where
  "probed_key kd arr p j =
     (if j < length (blocks arr) then pair_key (blocks arr ! j ! p) else kd)"

text \<open>The blocks of a chain once it has been extended to \<open>n\<close> blocks, if it was shorter.\<close>

definition grown :: "nat \<Rightarrow> 'a \<Rightarrow> 'a lf_array \<Rightarrow> nat \<Rightarrow> 'a list list" where
  "grown N d a n = blocks a @ replicate (n - length (blocks a)) (replicate N d)"

text \<open>Every block of the table has \<open>Size\<close> pairs, as the blocks \<open>lf_array\<close> creates have.\<close>

definition table_ok :: "nat \<Rightarrow> 'a lf_array \<Rightarrow> bool" where
  "table_ok Size arr = list_all (\<lambda>blk. length blk = Size) (blocks arr)"

text \<open>The blocks of the table after the key of slot \<open>p\<close> of block \<open>j\<close> has been set to \<open>k\<close>, the
  chain extended to that block if need be.\<close>

definition claimed :: "nat \<Rightarrow> 'k \<Rightarrow> 't \<Rightarrow> 'k \<Rightarrow> ('k, 't) pair_t lf_array \<Rightarrow> nat \<Rightarrow> nat \<Rightarrow> ('k, 't) pair_t list list" where
  "claimed Size kd td k arr p j =
     (let bs = grown Size \<lparr>pair_key = kd, pair_value = td\<rparr> arr (Suc j)
      in bs[j := (bs ! j)[p := (bs ! j ! p)\<lparr>pair_key := k\<rparr>]])"

subsection \<open>lf\_item and lf\_queue: multi-producer queue drained as a whole\<close>

text \<open>An item owns the items behind its link, so the list is a value of a recursive datatype.\<close>

datatype 'a lf_item = Item (m_link: "'a lf_item option") (m_data_i: 'a)

record 'a lf_queue =
  m_head :: "'a lf_item option"

definition lf_queue_init :: "'a lf_queue" where
  "lf_queue_init = \<lparr>m_head = None\<rparr>"

text \<open>\<open>push\<close> by one thread: the \<open>compare_exchange\<close> succeeds at once.\<close>

definition push_q :: "'a \<Rightarrow> 'a lf_queue \<Rightarrow> 'a lf_queue" where
  "push_q v q = (let old = m_head q; item = Item old v in q\<lparr>m_head := Some item\<rparr>)"

text \<open>The \<open>do ... while (prev)\<close> loop of \<open>reverse\<close>, entered with \<open>prev\<close> not null.\<close>

fun reverse_loop :: "'a lf_item \<Rightarrow> 'a lf_item \<Rightarrow> 'a lf_item" where
  "reverse_loop head (Item pprev dat) =
     (case pprev of
        None \<Rightarrow> Item (Some head) dat
      | Some p \<Rightarrow> reverse_loop (Item (Some head) dat) p)"

definition reverse_q :: "'a lf_queue \<Rightarrow> 'a lf_item option \<times> 'a lf_queue" where
  "reverse_q q =
     (case m_head q of
        None \<Rightarrow> (None, q)
      | Some head \<Rightarrow>
          (case m_link head of
             None \<Rightarrow> (Some head, q\<lparr>m_head := None\<rparr>)
           | Some prev \<Rightarrow> (Some (reverse_loop (Item None (m_data_i head)) prev), q\<lparr>m_head := None\<rparr>)))"

text \<open>
  The loop of \<open>apply\<close>. The callable acts on a state of the caller, \<open>func dat st\<close> being the
  state after \<open>func(dat)\<close>; \<open>ptr->pop_all()\<close> hands over the rest of the list and the item is
  freed.
\<close>

fun apply_loop :: "('a \<Rightarrow> 's \<Rightarrow> 's) \<Rightarrow> 'a lf_item option \<Rightarrow> nat \<Rightarrow> 's \<Rightarrow> nat \<times> 's" where
  "apply_loop func None count st = (count, st)"
| "apply_loop func (Some (Item lnk dat)) count st = apply_loop func lnk (count + 1) (func dat st)"

definition apply_q :: "('a \<Rightarrow> 's \<Rightarrow> 's) \<Rightarrow> 'a lf_queue \<Rightarrow> 's \<Rightarrow> nat \<times> 's \<times> 'a lf_queue" where
  "apply_q func q st =
     (case reverse_q q of
        (ptr, q') \<Rightarrow> (case apply_loop func ptr 0 st of (count, st') \<Rightarrow> (count, st', q')))"

text \<open>The payloads of a list of items, from the item pointed to onwards.\<close>

fun item_list :: "'a lf_item option \<Rightarrow> 'a list" where
  "item_list None = []"
| "item_list (Some (Item lnk dat)) = dat # item_list lnk"

text \<open>One thread pushing the values of a list, first element first.\<close>

fun push_all :: "'a list \<Rightarrow> 'a lf_queue \<Rightarrow> 'a lf_queue" where
  "push_all [] q = q"
| "push_all (v # vs) q = push_all vs (push_q v q)"

subsection \<open>lf\_value: assignable value that keeps its history\<close>

text \<open>
  A node is the cell itself or was allocated by \<open>assign\<close>; \<open>Node i\<close> is the address of the
  \<open>i\<close>-th allocation. \<open>m_head\<close> of the cell points to the latest node, \<open>m_head\<close> of any other
  node to the node that was the latest before it.
\<close>

datatype vptr = This | Node nat

record 'a lf_value_node =
  m_head_v :: vptr
  m_data_v :: 'a

record 'a lf_value =
  cell :: "'a lf_value_node"
  allocated :: "'a lf_value_node list"

definition deref :: "'a lf_value \<Rightarrow> vptr \<Rightarrow> 'a lf_value_node option" where
  "deref s p =
     (case p of
        This \<Rightarrow> Some (cell s)
      | Node i \<Rightarrow> (if i < length (allocated s) then Some (allocated s ! i) else None))"

text \<open>The constructor: \<open>m_head(this)\<close>, \<open>m_data(args...)\<close>.\<close>

definition lf_value_ctor :: "'a \<Rightarrow> 'a lf_value" where
  "lf_value_ctor v = \<lparr>cell = \<lparr>m_head_v = This, m_data_v = v\<rparr>, allocated = []\<rparr>"

definition first_v :: "'a lf_value \<Rightarrow> 'a" where
  "first_v s = m_data_v (cell s)"

definition get_v :: "'a lf_value \<Rightarrow> 'a option" where
  "get_v s = map_option m_data_v (deref s (m_head_v (cell s)))"

text \<open>
  \<open>assign\<close> by one thread: the new node is constructed with \<open>m_head\<close> pointing to itself,
  the loop body sets it to the head that was read, and the \<open>compare_exchange\<close> succeeds at
  once. The result is the value of the new node and the cell afterwards.
\<close>

definition assign :: "'a \<Rightarrow> 'a lf_value \<Rightarrow> 'a \<times> 'a lf_value" where
  "assign v s =
     (let val = Node (length (allocated s));
          node = \<lparr>m_head_v = val, m_data_v = v\<rparr>;
          old = m_head_v (cell s);
          node = node\<lparr>m_head_v := old\<rparr>
      in (m_data_v node,
          s\<lparr>cell := (cell s)\<lparr>m_head_v := val\<rparr>, allocated := allocated s @ [node]\<rparr>))"

fun assign_all :: "'a list \<Rightarrow> 'a lf_value \<Rightarrow> 'a lf_value" where
  "assign_all [] s = s"
| "assign_all (v # vs) s = assign_all vs (snd (assign v s))"



section \<open>Properties\<close>

subsection \<open>lf\_spsc: the size never exceeds N\<close>

lemma word_succ_sub: "(a::u32) + 1 - b = (a - b) + 1" by simp
lemma word_sub_succ: "(a::u32) - (b + 1) = (a - b) - 1" by simp

lemma word_pred_le: "(x::u32) \<noteq> 0 \<Longrightarrow> x \<le> N \<Longrightarrow> x - 1 \<le> N"
  using measure_unat[of x] by (simp add: word_le_nat_alt)

lemma reach_size_le: "spsc_reachable N d s \<Longrightarrow> size_spsc s \<le> N"
proof (induction rule: spsc_reachable.induct)
  case reach_init
  then show ?case by (simp add: lf_spsc_init_def size_spsc_def)
next
  case (reach_try_push s v)
  then show ?case
    by (auto simp: try_push_def size_spsc_def Let_def word_succ_sub not_le intro: inc_le)
next
  case (reach_try_pop s)
  then show ?case
    apply (auto simp: try_pop_def size_spsc_def Let_def word_sub_succ not_le)
    by (rule word_pred_le) simp_all
next
  case (reach_end_push s)
  then show ?case
    by (auto simp: end_push_def size_spsc_def Let_def word_succ_sub not_le intro: inc_le)
next
  case (reach_end_pop s)
  then show ?case
    apply (auto simp: end_pop_def size_spsc_def Let_def word_sub_succ not_le)
    by (rule word_pred_le) (simp_all add: word_neq_0_conv[symmetric])
qed

subsection \<open>lf\_spsc: slots and cursors\<close>

lemma valid_N_dvd: "valid_N N \<Longrightarrow> unat N dvd 2 ^ 32"
proof -
  assume v: "valid_N N"
  then have "unat ((push_bit 31 1 :: u32) mod N) = 0" by (simp add: valid_N_def)
  then have "(2 ^ 31 :: nat) mod unat N = 0" by (simp add: unat_mod)
  then have "unat N dvd 2 ^ 31" by (simp add: dvd_eq_mod_eq_0)
  then have "unat N dvd 2 ^ 31 * 2" by (rule dvd_mult2)
  then show ?thesis by simp
qed

lemma valid_N_pos: "valid_N N \<Longrightarrow> 0 < unat N"
  by (simp add: valid_N_def unat_gt_0)

lemma unat_add_mod_N:
  assumes "valid_N N"
  shows "unat ((a + b) mod N) = (unat a + unat b) mod unat N"
proof -
  have "unat ((a + b) mod N) = ((unat a + unat b) mod 2 ^ 32) mod unat N"
    by (simp add: unat_mod unat_word_ariths)
  also have "\<dots> = (unat a + unat b) mod unat N"
    using valid_N_dvd[OF assms] by (rule mod_mod_cancel)
  finally show ?thesis .
qed

lemma unat_of_nat_small: "i < unat (x :: u32) \<Longrightarrow> unat (of_nat i :: u32) = i"
proof -
  assume "i < unat x"
  moreover have "unat x < 2 ^ 32" using unsigned_less[of x] by simp
  ultimately have "i < 2 ^ 32" by simp
  then show ?thesis by (simp add: unat_of_nat)
qed

lemma ring_contents_nat:
  assumes "valid_N N"
  shows "ring_contents N s =
         map (\<lambda>i. m_data s ! ((unat (m_pop s) + i) mod unat N)) [0 ..< unat (size_spsc s)]"
  unfolding ring_contents_def
  by (rule map_cong) (simp_all add: unat_add_mod_N[OF assms] unat_of_nat_small)

lemma unat_push_mod:
  assumes "valid_N N"
  shows "unat (m_push s mod N) = (unat (m_pop s) + unat (size_spsc s)) mod unat N"
proof -
  have "m_push s = m_pop s + size_spsc s" by (simp add: size_spsc_def)
  then show ?thesis using unat_add_mod_N[OF assms, of "m_pop s" "size_spsc s"] by simp
qed

lemma mod_add_distinct:
  fixes p i k n :: nat
  assumes "i < k" "k < n"
  shows "(p + i) mod n \<noteq> (p + k) mod n"
proof
  assume "(p + i) mod n = (p + k) mod n"
  then have "(p + k) mod n = (p + i) mod n" by simp
  then have "n dvd (p + k) - (p + i)"
    using assms mod_eq_dvd_iff_nat[of "p + i" "p + k" n] by simp
  then have "n dvd (k - i)" by simp
  then show False using assms by (auto dest: dvd_imp_le)
qed

lemma unat_succ_lt: "(x::u32) < N \<Longrightarrow> unat (x + 1) = Suc (unat x)"
proof -
  assume "x < N"
  then have "unat x < unat N" by (simp add: word_less_nat_alt)
  moreover have "unat N < 2 ^ 32" using unsigned_less[of N] by simp
  ultimately have "unat x + 1 < 2 ^ 32" by simp
  then show ?thesis by (simp add: unat_word_ariths)
qed

lemma try_push_ok:
  assumes v: "valid_N N" and len: "length (m_data s) = unat N" and lt: "size_spsc s < N"
  shows "fst (try_push N x s)"
    and "length (m_data (snd (try_push N x s))) = unat N"
    and "size_spsc (snd (try_push N x s)) = size_spsc s + 1"
    and "ring_contents N (snd (try_push N x s)) = ring_contents N s @ [x]"
proof -
  define n p k where "n = unat N" and "p = unat (m_pop s)" and "k = unat (size_spsc s)"
  have kn: "k < n" using lt by (simp add: k_def n_def word_less_nat_alt)
  have nf: "\<not> N \<le> m_push s - m_pop s" using lt by (simp add: size_spsc_def not_le)
  let ?s' = "s\<lparr>m_data := (m_data s)[unat (m_push s mod N) := x], m_push := m_push s + 1\<rparr>"
  have step: "try_push N x s = (True, ?s')" using nf by (simp add: try_push_def Let_def)
  show "fst (try_push N x s)" by (simp add: step)
  show "length (m_data (snd (try_push N x s))) = unat N" by (simp add: step len)
  show sz: "size_spsc (snd (try_push N x s)) = size_spsc s + 1"
    by (simp add: step size_spsc_def)
  have k': "unat (size_spsc ?s') = Suc k"
    using sz unat_succ_lt[OF lt] by (simp add: step k_def)
  have idx: "unat (m_push s mod N) = (p + k) mod n"
    using unat_push_mod[OF v, of s] by (simp add: p_def k_def n_def)
  have npos: "0 < n" using valid_N_pos[OF v] by (simp add: n_def)
  have old: "\<And>i. i < k \<Longrightarrow> (m_data s)[(p + k) mod n := x] ! ((p + i) mod n) = m_data s ! ((p + i) mod n)"
  proof -
    fix i assume "i < k"
    then have "(p + k) mod n \<noteq> (p + i) mod n" using mod_add_distinct[OF _ kn, of i p] by simp
    then show "(m_data s)[(p + k) mod n := x] ! ((p + i) mod n) = m_data s ! ((p + i) mod n)"
      by (rule nth_list_update_neq)
  qed
  have new: "(m_data s)[(p + k) mod n := x] ! ((p + k) mod n) = x"
    using npos len by (simp add: n_def)
  have "ring_contents N ?s' = map (\<lambda>i. (m_data s)[(p + k) mod n := x] ! ((p + i) mod n)) [0 ..< Suc k]"
    using k' by (simp add: ring_contents_nat[OF v] idx p_def n_def)
  also have "\<dots> = map (\<lambda>i. m_data s ! ((p + i) mod n)) [0 ..< k] @ [x]"
    using old new by simp
  also have "\<dots> = ring_contents N s @ [x]"
    by (simp add: ring_contents_nat[OF v] p_def n_def k_def)
  finally show "ring_contents N (snd (try_push N x s)) = ring_contents N s @ [x]"
    by (simp add: step)
qed

lemma try_pop_ok:
  assumes ne: "size_spsc s \<noteq> 0"
  shows "\<exists>x. fst (try_pop N s) = Some x \<and> ring_contents N s = x # ring_contents N (snd (try_pop N s))"
    and "m_data (snd (try_pop N s)) = m_data s"
    and "size_spsc (snd (try_pop N s)) = size_spsc s - 1"
proof -
  let ?s' = "s\<lparr>m_pop := m_pop s + 1\<rparr>"
  let ?x = "m_data s ! unat (m_pop s mod N)"
  let ?f = "\<lambda>i. m_data s ! unat ((m_pop s + of_nat i) mod N)"
  have step: "try_pop N s = (Some ?x, ?s')"
    using ne by (simp add: try_pop_def Let_def size_spsc_def)
  show "m_data (snd (try_pop N s)) = m_data s" by (simp add: step)
  show sz: "size_spsc (snd (try_pop N s)) = size_spsc s - 1"
    by (simp add: step size_spsc_def)
  have k: "unat (size_spsc ?s') = unat (size_spsc s) - 1"
    using sz unat_minus_one[OF ne] by (simp add: step)
  have kpos: "0 < unat (size_spsc s)" using ne by (simp add: unat_gt_0)
  have "ring_contents N s = map ?f (0 # map Suc [0 ..< unat (size_spsc s) - 1])"
    using kpos by (simp add: ring_contents_def map_Suc_upt upt_conv_Cons)
  also have "\<dots> = ?x # map (\<lambda>i. ?f (Suc i)) [0 ..< unat (size_spsc s) - 1]"
    by (simp add: comp_def)
  also have "map (\<lambda>i. ?f (Suc i)) [0 ..< unat (size_spsc s) - 1] = ring_contents N ?s'"
    using k by (simp add: ring_contents_def ac_simps)
  finally show "\<exists>x. fst (try_pop N s) = Some x \<and> ring_contents N s = x # ring_contents N (snd (try_pop N s))"
    by (simp add: step)
qed

lemma spsc_run_inv:
  assumes v: "valid_N N"
  shows "length (m_data s) = unat N \<Longrightarrow> size_spsc s \<le> N \<Longrightarrow> acc = del @ ring_contents N s
     \<Longrightarrow> spsc_run N ops (acc, del, s) = (acc', del', s')
     \<Longrightarrow> acc' = del' @ ring_contents N s'"
proof (induction ops arbitrary: acc del s)
  case Nil
  then show ?case by auto
next
  case (Cons op ops)
  show ?case
  proof (cases op)
    case (Try_push x)
    show ?thesis
    proof (cases "size_spsc s < N")
      case True
      note ok = try_push_ok[OF v Cons.prems(1) True, of x]
      obtain t where t: "try_push N x s = (True, t)"
        using ok(1) by (cases "try_push N x s") simp
      have "size_spsc t \<le> N" using ok(3) True t by (simp add: inc_le)
      moreover have "length (m_data t) = unat N" using ok(2) t by simp
      moreover have "acc @ [x] = del @ ring_contents N t" using ok(4) t Cons.prems(3) by simp
      moreover have "spsc_run N ops (acc @ [x], del, t) = (acc', del', s')"
        using Cons.prems(4) Try_push t by simp
      ultimately show ?thesis using Cons.IH by blast
    next
      case False
      then have "try_push N x s = (False, s)"
        by (simp add: try_push_def Let_def size_spsc_def not_less)
      then have "spsc_run N ops (acc, del, s) = (acc', del', s')"
        using Cons.prems(4) Try_push by simp
      then show ?thesis using Cons.IH Cons.prems by blast
    qed
  next
    case Try_pop
    show ?thesis
    proof (cases "size_spsc s = 0")
      case True
      then have "try_pop N s = (None, s)"
        by (simp add: try_pop_def Let_def size_spsc_def)
      then have "spsc_run N ops (acc, del, s) = (acc', del', s')"
        using Cons.prems(4) Try_pop by simp
      then show ?thesis using Cons.IH Cons.prems by blast
    next
      case False
      note ok = try_pop_ok[OF False, of N]
      obtain x t where t: "try_pop N s = (Some x, t)" and c: "ring_contents N s = x # ring_contents N t"
        using ok(1) by (cases "try_pop N s") auto
      have "size_spsc t \<le> N" using ok(3) t False Cons.prems(2) by (simp add: word_pred_le)
      moreover have "length (m_data t) = unat N" using ok(2) t Cons.prems(1) by simp
      moreover have "acc = (del @ [x]) @ ring_contents N t" using c Cons.prems(3) by simp
      moreover have "spsc_run N ops (acc, del @ [x], t) = (acc', del', s')"
        using Cons.prems(4) Try_pop t by simp
      ultimately show ?thesis using Cons.IH by blast
    qed
  qed
qed

lemma ring_contents_empty: "size_spsc s = 0 \<Longrightarrow> ring_contents N s = []"
  by (simp add: ring_contents_def)

text \<open>
  C1. A single producer and a single consumer run any sequence of \<open>try_push\<close> and \<open>try_pop\<close>
  calls on an initially empty ring. The values delivered by the successful pops are the
  values accepted by the successful pushes, in the same order: the \<open>i\<close>-th value delivered is
  the \<open>i\<close>-th value accepted. The accepted sequence is the delivered sequence followed by
  what the ring still holds, oldest first, so the two sequences are equal whenever the
  ring has been emptied. This holds for runs of any length, across the wrap-around of the
  32-bit cursors.
\<close>

theorem spsc_fifo:
  assumes "valid_N N"
    and "spsc_run N ops ([], [], lf_spsc_init N d) = (accepted, delivered, s)"
  shows "accepted = delivered @ ring_contents N s
       \<and> delivered = take (length delivered) accepted
       \<and> (size_spsc s = 0 \<longrightarrow> delivered = accepted)"
proof -
  have "accepted = delivered @ ring_contents N s"
    by (rule spsc_run_inv[OF assms(1) _ _ _ assms(2)])
       (simp_all add: lf_spsc_init_def size_spsc_def ring_contents_def)
  then show ?thesis by (simp add: ring_contents_empty)
qed

theorem spsc_fifo_witness:
  "valid_N 2 \<and>
   spsc_run 2 [Try_push (1::nat), Try_push 2, Try_push 3, Try_pop, Try_push 4, Try_pop, Try_pop, Try_pop]
      ([], [], lf_spsc_init 2 0)
     = ([1, 2, 4], [1, 2, 4], \<lparr>m_push = 3, m_pop = 3, m_data = [4, 2]\<rparr>) \<and>
   [1, 2, 4] = [1, 2, 4] @ ring_contents 2 \<lparr>m_push = 3, m_pop = 3, m_data = [4, 2::nat]\<rparr>"
proof -
  have v: "valid_N 2" by code_simp
  have r: "spsc_run 2 [Try_push (1::nat), Try_push 2, Try_push 3, Try_pop, Try_push 4, Try_pop, Try_pop, Try_pop]
      ([], [], lf_spsc_init 2 0)
     = ([1, 2, 4], [1, 2, 4], \<lparr>m_push = 3, m_pop = 3, m_data = [4, 2]\<rparr>)"
    by code_simp
  show ?thesis using v r spsc_fifo[OF v r] by simp
qed

text \<open>
  C7. In every state reachable from the empty ring by \<open>try_push\<close>, \<open>try_pop\<close>, \<open>end_push\<close> and
  \<open>end_pop\<close>, \<open>try_push\<close> returns false if and only if \<open>size() == N\<close>, \<open>try_pop\<close> returns false
  if and only if \<open>size() == 0\<close>, and a failing call leaves the ring unchanged.
\<close>

theorem spsc_fail_iff:
  assumes "spsc_reachable N d s"
  shows "(\<not> fst (try_push N v s) \<longleftrightarrow> size_spsc s = N)
       \<and> (\<not> fst (try_push N v s) \<longrightarrow> snd (try_push N v s) = s)
       \<and> (fst (try_pop N s) = None \<longleftrightarrow> size_spsc s = 0)
       \<and> (fst (try_pop N s) = None \<longrightarrow> snd (try_pop N s) = s)"
  using reach_size_le[OF assms]
  by (auto simp: try_push_def try_pop_def size_spsc_def Let_def)

theorem spsc_fail_iff_witness:
  "spsc_reachable 2 (0::nat) (snd (try_push 2 7 (snd (try_push 2 5 (lf_spsc_init 2 0)))))
   \<and> \<not> fst (try_push 2 9 (snd (try_push 2 7 (snd (try_push 2 5 (lf_spsc_init 2 (0::nat)))))))
   \<and> size_spsc (snd (try_push 2 7 (snd (try_push 2 5 (lf_spsc_init 2 (0::nat)))))) = 2
   \<and> fst (try_pop 2 (lf_spsc_init 2 (0::nat))) = None
   \<and> size_spsc (lf_spsc_init 2 (0::nat)) = 0"
proof -
  have r0: "spsc_reachable 2 (0::nat) (lf_spsc_init 2 0)" by (rule reach_init)
  have r2: "spsc_reachable 2 (0::nat) (snd (try_push 2 7 (snd (try_push 2 5 (lf_spsc_init 2 0)))))"
    by (intro reach_try_push reach_init)
  have sz2: "size_spsc (snd (try_push 2 7 (snd (try_push 2 5 (lf_spsc_init 2 (0::nat)))))) = 2"
    by code_simp
  have sz0: "size_spsc (lf_spsc_init 2 (0::nat)) = 0" by code_simp
  show ?thesis
    using r2 sz2 sz0 spsc_fail_iff[OF r2, of 9] spsc_fail_iff[OF r0, of 9] by simp
qed

text \<open>
  C10. \<open>end_push\<close> on a full ring (\<open>m_push - m_pop >= N\<close>) leaves the push cursor and every slot
  as they were, and \<open>end_pop\<close> on an empty ring (\<open>m_push == m_pop\<close>) leaves the pop cursor as
  it was: at the boundary both commits do nothing.
\<close>

theorem end_push_end_pop_guarded:
  "(m_push s - m_pop s \<ge> N \<longrightarrow> end_push N s = s)
   \<and> (m_push s = m_pop s \<longrightarrow> end_pop s = s)"
  by (auto simp: end_push_def end_pop_def Let_def)

theorem end_push_end_pop_guarded_witness:
  "m_push \<lparr>m_push = 5, m_pop = 3, m_data = [7, 9::nat]\<rparr> - m_pop \<lparr>m_push = 5, m_pop = 3, m_data = [7, 9::nat]\<rparr> \<ge> (2::u32)
   \<and> end_push 2 \<lparr>m_push = 5, m_pop = 3, m_data = [7, 9::nat]\<rparr> = \<lparr>m_push = 5, m_pop = 3, m_data = [7, 9]\<rparr>
   \<and> m_push \<lparr>m_push = 3, m_pop = 3, m_data = [7, 9::nat]\<rparr> = m_pop \<lparr>m_push = 3, m_pop = 3, m_data = [7, 9::nat]\<rparr>
   \<and> end_pop \<lparr>m_push = 3, m_pop = 3, m_data = [7, 9::nat]\<rparr> = \<lparr>m_push = 3, m_pop = 3, m_data = [7, 9]\<rparr>"
  using end_push_end_pop_guarded[of 2 "\<lparr>m_push = 5, m_pop = 3, m_data = [7, 9::nat]\<rparr>"]
    end_push_end_pop_guarded[of 2 "\<lparr>m_push = 3, m_pop = 3, m_data = [7, 9::nat]\<rparr>"]
  by simp

subsection \<open>lf\_mpsc: the reservation word\<close>

lemma c_rel_val: "c_rel = 2 ^ 32" by (simp add: c_rel_def)

lemma mod_c_rel: "(v::u64) mod c_rel = take_bit 32 v"
  by (simp add: c_rel_val take_bit_eq_mod)

lemma div_c_rel: "(v::u64) div c_rel = drop_bit 32 v"
  by (simp add: c_rel_val drop_bit_eq_div)

lemma ucast_low: "(ucast ((v::u64) mod c_rel) :: u32) = ucast v"
  unfolding mod_c_rel by (rule bit_word_eqI) (auto simp: bit_simps)

lemma halves_eq_iff:
  "((v::u64) mod c_rel = v div c_rel) \<longleftrightarrow> ((ucast v :: u32) = ucast (drop_bit 32 v))"
  unfolding mod_c_rel div_c_rel
proof
  assume "take_bit 32 v = drop_bit 32 v"
  then have "(ucast (take_bit 32 v) :: u32) = ucast (drop_bit 32 v)" by simp
  moreover have "(ucast (take_bit 32 v) :: u32) = ucast v"
    by (rule bit_word_eqI) (auto simp: bit_simps)
  ultimately show "(ucast v :: u32) = ucast (drop_bit 32 v)" by simp
next
  assume e: "(ucast v :: u32) = ucast (drop_bit 32 v)"
  show "take_bit 32 v = drop_bit 32 v"
  proof (rule bit_word_eqI)
    fix n assume n: "n < LENGTH(64)"
    have "bit (ucast v :: u32) n = bit (ucast (drop_bit 32 v) :: u32) n" using e by simp
    then show "bit (take_bit 32 v) n = bit (drop_bit 32 v) n"
      using n by (auto simp: bit_simps dest: bit_imp_le_length)
  qed
qed

lemma low_nonzero:
  assumes "(v::u64) \<noteq> 0" and "(ucast v :: u32) = ucast (drop_bit 32 v)"
  shows "(ucast v :: u32) \<noteq> 0"
proof
  assume z: "(ucast v :: u32) = 0"
  have "v = 0"
  proof (rule bit_word_eqI)
    fix n assume n: "n < LENGTH(64)"
    have a: "\<not> bit (ucast v :: u32) k" for k using z by simp
    have b: "\<not> bit (ucast (drop_bit 32 v) :: u32) k" for k using z assms(2) by simp
    show "bit v n = bit (0::u64) n"
    proof (cases "n < 32")
      case True
      then show ?thesis using a[of n] by (simp add: bit_simps)
    next
      case False
      then show ?thesis using b[of "n - 32"] n by (simp add: bit_simps)
    qed
  qed
  then show False using assms(1) by simp
qed

text \<open>
  C8. \<open>release(word)\<close> acts exactly when the word is nonzero and its release count (the high 32
  bits) equals its ack count (the low 32 bits): it then advances \<open>m_push\<close> by that count,
  which moves the cursor, and resets \<open>m_lock\<close> to zero if \<open>m_lock\<close> still holds the word that
  was observed. In every other case the ring is unchanged.
\<close>

theorem release_spec:
  "(val \<noteq> 0 \<and> (ucast (drop_bit 32 val) :: u32) = ucast val \<longrightarrow>
      release val s = s\<lparr>m_push := m_push s + ucast val,
                        m_lock := (if m_lock s = val then 0 else m_lock s)\<rparr>
      \<and> m_push (release val s) \<noteq> m_push s)
   \<and> (\<not> (val \<noteq> 0 \<and> (ucast (drop_bit 32 val) :: u32) = ucast val) \<longrightarrow> release val s = s)"
proof (cases "val \<noteq> 0 \<and> (ucast (drop_bit 32 val) :: u32) = ucast val")
  case True
  then have cond: "(val \<noteq> 0 \<and> val mod c_rel = val div c_rel) = True"
    by (auto simp: halves_eq_iff)
  have r: "release val s = s\<lparr>m_push := m_push s + ucast val,
                        m_lock := (if m_lock s = val then 0 else m_lock s)\<rparr>"
    by (simp only: release_def cond if_True ucast_low)
  have "(ucast val :: u32) \<noteq> 0" using True low_nonzero[of val] by simp
  then have "m_push (release val s) \<noteq> m_push s" by (simp add: r)
  then show ?thesis using True r by simp
next
  case False
  then have "(val \<noteq> 0 \<and> val mod c_rel = val div c_rel) = False" by (auto simp: halves_eq_iff)
  then have "release val s = s" by (simp only: release_def if_False)
  then show ?thesis using False by simp
qed

lemma w64_a: "(8589934594 :: u64) \<noteq> 0" by simp
lemma w64_b: "(ucast (drop_bit 32 (8589934594 :: u64)) :: u32) = 2" by simp
lemma w64_c: "(ucast (8589934594 :: u64) :: u32) = 2" by simp
lemma w64_d: "(ucast (drop_bit 32 (4294967298 :: u64)) :: u32) = 1" by simp
lemma w64_e: "(ucast (4294967298 :: u64) :: u32) = 2" by simp

theorem release_spec_witness:
  "(8589934594 :: u64) \<noteq> 0 \<and> (ucast (drop_bit 32 (8589934594 :: u64)) :: u32) = ucast (8589934594 :: u64)
   \<and> release 8589934594 \<lparr>m_push = 5, m_pop = 3, m_data = [7, 9::nat], m_lock = 8589934594\<rparr>
       = \<lparr>m_push = 7, m_pop = 3, m_data = [7, 9], m_lock = 0\<rparr>
   \<and> (ucast (drop_bit 32 (4294967298 :: u64)) :: u32) \<noteq> ucast (4294967298 :: u64)
   \<and> release 4294967298 \<lparr>m_push = 5, m_pop = 3, m_data = [7, 9::nat], m_lock = 4294967298\<rparr>
       = \<lparr>m_push = 5, m_pop = 3, m_data = [7, 9], m_lock = 4294967298\<rparr>"
  using release_spec[of 8589934594 "\<lparr>m_push = 5, m_pop = 3, m_data = [7, 9::nat], m_lock = 8589934594\<rparr>"]
      release_spec[of 4294967298 "\<lparr>m_push = 5, m_pop = 3, m_data = [7, 9::nat], m_lock = 4294967298\<rparr>"]
  by (simp add: w64_a w64_b w64_c w64_d w64_e)

subsection \<open>lf\_mpsc: requesting a write pointer\<close>

lemma unat_ucast_32_64: "unat (ucast (x::u32) :: u64) = unat x"
proof -
  have "unat x < 2 ^ 32" using unsigned_less[of x] by simp
  then have "unat x < 2 ^ 64" by simp
  then show ?thesis by (simp add: unsigned_ucast_eq take_bit_nat_eq_self_iff)
qed

lemma unat_ucast_64_32: "unat (ucast (x::u64) :: u32) = unat x mod 2 ^ 32"
  by (simp add: unsigned_ucast_eq take_bit_eq_mod)

lemma unat_lock_mod_N:
  assumes "valid_N N"
  shows "unat ((w::u64) mod ucast N) = unat (ucast w :: u32) mod unat N"
proof -
  have "unat (w mod ucast N) = unat w mod unat N"
    by (simp add: unat_mod unat_ucast_32_64)
  also have "\<dots> = (unat w mod 2 ^ 32) mod unat N"
    using valid_N_dvd[OF assms] by (simp add: mod_mod_cancel)
  finally show ?thesis by (simp add: unat_ucast_64_32)
qed

lemma unat_slot_mod_N:
  assumes "valid_N N"
  shows "unat ((ucast (p::u32) + (w::u64)) mod ucast N) = (unat p + unat (ucast w :: u32)) mod unat N"
proof -
  have d: "unat N dvd 2 ^ 32" by (rule valid_N_dvd[OF assms])
  then have d64: "unat N dvd 2 ^ 64"
    by (rule dvd_trans) (simp add: le_imp_power_dvd)
  have "unat ((ucast p + w) mod ucast N) = ((unat p + unat w) mod 2 ^ 64) mod unat N"
    by (simp add: unat_mod unat_ucast_32_64 unat_word_ariths)
  also have "\<dots> = (unat p + unat w) mod unat N"
    using d64 by (rule mod_mod_cancel)
  also have "\<dots> = (unat p + unat w mod unat N) mod unat N"
    by (simp add: mod_add_right_eq)
  also have "unat w mod unat N = (unat w mod 2 ^ 32) mod unat N"
    using d by (simp add: mod_mod_cancel)
  finally show ?thesis by (simp add: unat_ucast_64_32 mod_add_right_eq)
qed

lemma mpsc_push_ptr_cases:
  assumes v: "valid_N N"
  shows "mpsc_push_ptr N s =
     (if unat N \<le> unat (size_spsc s) + unat (ucast (m_lock s) :: u32) mod unat N
      then (None, release (m_lock s) s)
      else (Some ((unat (m_push s) + unat (ucast (m_lock s) :: u32)) mod unat N),
            s\<lparr>m_lock := m_lock s + 1\<rparr>))"
proof -
  define old where "old = m_lock s"
  define r where "r = old mod ucast N"
  have npos: "0 < unat N" using v by (simp add: valid_N_def unat_gt_0)
  have r: "unat r = unat (ucast old :: u32) mod unat N"
    unfolding r_def by (rule unat_lock_mod_N[OF v])
  then have rlt: "unat r < unat N" using npos by simp
  have c1: "\<not> ucast N \<le> r"
    using rlt by (simp add: word_le_nat_alt unat_ucast_32_64)
  have "r \<le> ucast N" using rlt by (simp add: word_le_nat_alt unat_ucast_32_64)
  then have sub: "unat (ucast N - r) = unat N - unat r"
    by (simp add: unat_sub unat_ucast_32_64)
  have c2: "ucast N - r \<le> ucast (m_push s - m_pop s) \<longleftrightarrow>
            unat N \<le> unat (size_spsc s) + unat (ucast old :: u32) mod unat N"
    using rlt by (auto simp: word_le_nat_alt sub unat_ucast_32_64 size_spsc_def r)
  have idx: "unat ((ucast (m_push s) + old) mod ucast N) = (unat (m_push s) + unat (ucast old :: u32)) mod unat N"
    by (rule unat_slot_mod_N[OF v])
  have same: "s\<lparr>m_lock := old\<rparr> = s" by (simp add: old_def)
  show ?thesis
    using c1 c2 idx
    by (simp add: same mpsc_push_ptr_def Let_def c_ack_def old_def[symmetric] r_def[symmetric])
qed

text \<open>
  C3. Requesting a write pointer should return null exactly when the ring is or would
  become full given the outstanding reservations. With \<open>N = 4\<close> the first four requests on
  the empty ring, none of them followed by \<open>end_push\<close> yet, hand out the slots 0, 1, 2, 3;
  the ring is then fully reserved, yet the fifth request is not refused: it hands out slot
  0 again and leaves five reservations in \<open>m_lock\<close>. Once the five values 1..5 are written
  and the five \<open>end_push\<close> calls are made, \<open>m_push\<close> has moved by five, the size exceeds \<open>N\<close>,
  and the consumer reads the fifth value where the first was written.
\<close>

theorem mpsc_push_ptr_overbooked:
  "lf_mpsc_init 4 (0::nat) = \<lparr>m_push = 0, m_pop = 0, m_data = [0, 0, 0, 0], m_lock = 0\<rparr>
   \<and> mpsc_push_ptr 4 \<lparr>m_push = 0, m_pop = 0, m_data = [0, 0, 0, 0::nat], m_lock = 0\<rparr> = (Some 0, \<lparr>m_push = 0, m_pop = 0, m_data = [0, 0, 0, 0], m_lock = 1\<rparr>)
   \<and> mpsc_push_ptr 4 \<lparr>m_push = 0, m_pop = 0, m_data = [0, 0, 0, 0::nat], m_lock = 1\<rparr> = (Some 1, \<lparr>m_push = 0, m_pop = 0, m_data = [0, 0, 0, 0], m_lock = 2\<rparr>)
   \<and> mpsc_push_ptr 4 \<lparr>m_push = 0, m_pop = 0, m_data = [0, 0, 0, 0::nat], m_lock = 2\<rparr> = (Some 2, \<lparr>m_push = 0, m_pop = 0, m_data = [0, 0, 0, 0], m_lock = 3\<rparr>)
   \<and> mpsc_push_ptr 4 \<lparr>m_push = 0, m_pop = 0, m_data = [0, 0, 0, 0::nat], m_lock = 3\<rparr> = (Some 3, \<lparr>m_push = 0, m_pop = 0, m_data = [0, 0, 0, 0], m_lock = 4\<rparr>)
   \<and> mpsc_push_ptr 4 \<lparr>m_push = 0, m_pop = 0, m_data = [0, 0, 0, 0::nat], m_lock = 4\<rparr> = (Some 0, \<lparr>m_push = 0, m_pop = 0, m_data = [0, 0, 0, 0], m_lock = 5\<rparr>)
   \<and> mpsc_end_push (mpsc_end_push (mpsc_end_push (mpsc_end_push (mpsc_end_push
         \<lparr>m_push = 0, m_pop = 0, m_data = [5, 2, 3, 4::nat], m_lock = 5\<rparr>))))
       = \<lparr>m_push = 5, m_pop = 0, m_data = [5, 2, 3, 4], m_lock = 0\<rparr>
   \<and> size_spsc \<lparr>m_push = 5, m_pop = 0, m_data = [5, 2, 3, 4::nat], m_lock = 0\<rparr> = 5
   \<and> fst (try_pop 4 \<lparr>m_push = 5, m_pop = 0, m_data = [5, 2, 3, 4::nat], m_lock = 0\<rparr>) = Some 5"
proof -
  have le: "\<not> (4::u64) \<le> 1" by (simp add: word_le_nat_alt)
  have rep: "replicate 4 (0::nat) = [0, 0, 0, 0]" by (simp add: numeral_eq_Suc)
  have i: "lf_mpsc_init 4 (0::nat) = \<lparr>m_push = 0, m_pop = 0, m_data = [0, 0, 0, 0], m_lock = 0\<rparr>"
    by (simp add: lf_mpsc_init_def rep)
  have s0: "mpsc_push_ptr 4 \<lparr>m_push = 0, m_pop = 0, m_data = [0, 0, 0, 0::nat], m_lock = 0\<rparr> = (Some 0, \<lparr>m_push = 0, m_pop = 0, m_data = [0, 0, 0, 0], m_lock = 1\<rparr>)"
    by (simp add: mpsc_push_ptr_def c_ack_def Let_def le)
  have s1: "mpsc_push_ptr 4 \<lparr>m_push = 0, m_pop = 0, m_data = [0, 0, 0, 0::nat], m_lock = 1\<rparr> = (Some 1, \<lparr>m_push = 0, m_pop = 0, m_data = [0, 0, 0, 0], m_lock = 2\<rparr>)"
    by (simp add: mpsc_push_ptr_def c_ack_def Let_def le)
  have s2: "mpsc_push_ptr 4 \<lparr>m_push = 0, m_pop = 0, m_data = [0, 0, 0, 0::nat], m_lock = 2\<rparr> = (Some 2, \<lparr>m_push = 0, m_pop = 0, m_data = [0, 0, 0, 0], m_lock = 3\<rparr>)"
    by (simp add: mpsc_push_ptr_def c_ack_def Let_def le)
  have s3: "mpsc_push_ptr 4 \<lparr>m_push = 0, m_pop = 0, m_data = [0, 0, 0, 0::nat], m_lock = 3\<rparr> = (Some 3, \<lparr>m_push = 0, m_pop = 0, m_data = [0, 0, 0, 0], m_lock = 4\<rparr>)"
    by (simp add: mpsc_push_ptr_def c_ack_def Let_def le)
  have s4: "mpsc_push_ptr 4 \<lparr>m_push = 0, m_pop = 0, m_data = [0, 0, 0, 0::nat], m_lock = 4\<rparr> = (Some 0, \<lparr>m_push = 0, m_pop = 0, m_data = [0, 0, 0, 0], m_lock = 5\<rparr>)"
    by (simp add: mpsc_push_ptr_def c_ack_def Let_def le)
  have e: "mpsc_end_push (mpsc_end_push (mpsc_end_push (mpsc_end_push (mpsc_end_push
         \<lparr>m_push = 0, m_pop = 0, m_data = [5, 2, 3, 4::nat], m_lock = 5\<rparr>))))
       = \<lparr>m_push = 5, m_pop = 0, m_data = [5, 2, 3, 4], m_lock = 0\<rparr>"
    by (simp add: mpsc_end_push_def release_def c_rel_def Let_def)
  have z: "size_spsc \<lparr>m_push = 5, m_pop = 0, m_data = [5, 2, 3, 4::nat], m_lock = 0\<rparr> = 5"
    by (simp add: size_spsc_def)
  have p: "fst (try_pop 4 \<lparr>m_push = 5, m_pop = 0, m_data = [5, 2, 3, 4::nat], m_lock = 0\<rparr>) = Some 5"
    by (simp add: try_pop_def Let_def)
  show ?thesis using i s0 s1 s2 s3 s4 e z p by blast
qed

subsection \<open>lf\_fifo: pop\_end\<close>

text \<open>
  C4, as stated: a return of 0 from \<open>pop_end\<close> signals that the counters were reset. This
  fails: with \<open>push = 5\<close> and \<open>pop = 0\<close>, \<open>pop_end(0)\<close> returns 0 and \<open>push\<close> is still 5.
\<close>

theorem pop_end_zero_counterexample:
  "\<not> (\<forall>count q. fst (pop_end count (q :: nat lf_fifo)) = 0 \<longrightarrow>
          push (m_ctrl (snd (pop_end count q))) = 0 \<and> pop (m_ctrl (snd (pop_end count q))) = 0)"
proof
  assume a: "\<forall>count q. fst (pop_end count (q :: nat lf_fifo)) = 0 \<longrightarrow>
          push (m_ctrl (snd (pop_end count q))) = 0 \<and> pop (m_ctrl (snd (pop_end count q))) = 0"
  let ?q = "\<lparr>fifo_base = Block [0::nat] None, m_ctrl = \<lparr>push = 5, pop = 0\<rparr>\<rparr>"
  have "fst (pop_end 0 ?q) = 0" by (simp add: pop_end_def pop_end_op_def Let_def)
  with a have "push (m_ctrl (snd (pop_end 0 ?q))) = 0" by blast
  then show False by (simp add: pop_end_def pop_end_op_def Let_def)
qed

text \<open>
  C4, amended. \<open>pop_end(count)\<close> adds \<open>count\<close> to the pop counter in one atomic step on the
  control word and leaves the array alone; if the pop counter then equals the push counter
  both are set to zero in the same step and 0 is returned; otherwise the push counter is
  kept. The value returned is the resulting pop counter. A return of 0 means that the
  counters were reset provided \<open>pop + count\<close> is not 0 modulo \<open>2^32\<close>.
\<close>

theorem pop_end_spec:
  "fst (pop_end count q) = pop (m_ctrl (snd (pop_end count q)))
   \<and> fifo_base (snd (pop_end count q)) = fifo_base q
   \<and> (pop (m_ctrl q) + count = push (m_ctrl q) \<longrightarrow>
         m_ctrl (snd (pop_end count q)) = \<lparr>push = 0, pop = 0\<rparr> \<and> fst (pop_end count q) = 0)
   \<and> (pop (m_ctrl q) + count \<noteq> push (m_ctrl q) \<longrightarrow>
         m_ctrl (snd (pop_end count q)) = \<lparr>push = push (m_ctrl q), pop = pop (m_ctrl q) + count\<rparr>)
   \<and> (fst (pop_end count q) = 0 \<and> pop (m_ctrl q) + count \<noteq> 0 \<longrightarrow>
         m_ctrl (snd (pop_end count q)) = \<lparr>push = 0, pop = 0\<rparr>)"
  by (auto simp: pop_end_def pop_end_op_def Let_def)

theorem pop_end_spec_witness:
  "pop (m_ctrl \<lparr>fifo_base = Block [0::nat] None, m_ctrl = \<lparr>push = 5, pop = 3\<rparr>\<rparr>) + 2
     = push (m_ctrl \<lparr>fifo_base = Block [0::nat] None, m_ctrl = \<lparr>push = 5, pop = 3\<rparr>\<rparr>)
   \<and> pop_end 2 \<lparr>fifo_base = Block [0::nat] None, m_ctrl = \<lparr>push = 5, pop = 3\<rparr>\<rparr>
       = (0, \<lparr>fifo_base = Block [0::nat] None, m_ctrl = \<lparr>push = 0, pop = 0\<rparr>\<rparr>)
   \<and> pop (m_ctrl \<lparr>fifo_base = Block [0::nat] None, m_ctrl = \<lparr>push = 5, pop = 3\<rparr>\<rparr>) + 1
     \<noteq> push (m_ctrl \<lparr>fifo_base = Block [0::nat] None, m_ctrl = \<lparr>push = 5, pop = 3\<rparr>\<rparr>)
   \<and> pop_end 1 \<lparr>fifo_base = Block [0::nat] None, m_ctrl = \<lparr>push = 5, pop = 3\<rparr>\<rparr>
       = (4, \<lparr>fifo_base = Block [0::nat] None, m_ctrl = \<lparr>push = 5, pop = 4\<rparr>\<rparr>)"
  using pop_end_spec[of 2 "\<lparr>fifo_base = Block [0::nat] None, m_ctrl = \<lparr>push = 5, pop = 3\<rparr>\<rparr>"]
    pop_end_spec[of 1 "\<lparr>fifo_base = Block [0::nat] None, m_ctrl = \<lparr>push = 5, pop = 3\<rparr>\<rparr>"]
  by (simp add: prod_eq_iff lf_fifo.equality)

subsection \<open>lf\_value\<close>

lemma assign_fields:
  "cell (snd (assign v s)) = (cell s)\<lparr>m_head_v := Node (length (allocated s))\<rparr>"
  "allocated (snd (assign v s)) = allocated s @ [\<lparr>m_head_v = m_head_v (cell s), m_data_v = v\<rparr>]"
  "fst (assign v s) = v"
  by (simp_all add: assign_def Let_def)

lemma get_after_assign: "get_v (snd (assign v s)) = Some v"
  by (simp add: get_v_def deref_def assign_fields)

lemma first_after_assign: "first_v (snd (assign v s)) = first_v s"
  by (simp add: first_v_def assign_fields)

lemma first_assign_all: "first_v (assign_all vs s) = first_v s"
  by (induction vs arbitrary: s) (simp_all add: first_after_assign)

lemma assign_all_snoc: "assign_all (vs @ [v]) s = snd (assign v (assign_all vs s))"
  by (induction vs arbitrary: s) simp_all

text \<open>
  C9. A cell constructed with \<open>v0\<close> and then assigned any finite sequence of values ending
  with \<open>v\<close> returns \<open>v\<close> from \<open>get()\<close> and still returns \<open>v0\<close> from \<open>first()\<close>; with no assignment
  at all \<open>get()\<close> returns \<open>v0\<close>.
\<close>

theorem lf_value_latest_and_first:
  "get_v (assign_all (vs @ [v]) (lf_value_ctor v0)) = Some v
   \<and> first_v (assign_all (vs @ [v]) (lf_value_ctor v0)) = v0
   \<and> get_v (lf_value_ctor v0) = Some v0"
  by (simp add: assign_all_snoc get_after_assign first_after_assign first_assign_all)
     (simp add: first_v_def get_v_def deref_def lf_value_ctor_def)

subsection \<open>lf\_queue\<close>

lemma reverse_loop_list:
  "item_list (Some (reverse_loop head prev)) = rev (item_list (Some prev)) @ item_list (Some head)"
proof (induction head prev rule: reverse_loop.induct)
  case (1 head pprev dat)
  show ?case
  proof (cases pprev)
    case None
    then show ?thesis by simp
  next
    case (Some p)
    then show ?thesis using 1[OF Some] by simp
  qed
qed

lemma reverse_q_list:
  "item_list (fst (reverse_q q)) = rev (item_list (m_head q)) \<and> m_head (snd (reverse_q q)) = None"
proof (cases "m_head q")
  case None
  then show ?thesis by (simp add: reverse_q_def)
next
  case (Some head)
  obtain lnk dat where h: "head = Item lnk dat" by (cases head)
  show ?thesis
  proof (cases lnk)
    case None
    then show ?thesis using Some h by (simp add: reverse_q_def)
  next
    case (Some prev)
    then show ?thesis using \<open>m_head q = Some head\<close> h
      by (simp add: reverse_q_def reverse_loop_list)
  qed
qed

lemma apply_loop_list:
  "apply_loop func ptr count st = (count + length (item_list ptr), fold func (item_list ptr) st)"
  by (induction func ptr count st rule: apply_loop.induct) simp_all

lemma push_all_list: "item_list (m_head (push_all vs q)) = rev vs @ item_list (m_head q)"
  by (induction vs arbitrary: q) (simp_all add: push_q_def Let_def)

lemma push_all_more: "lf_queue.more (push_all vs q) = lf_queue.more q"
  by (induction vs arbitrary: q) (simp_all add: push_q_def Let_def)

lemma fold_trace: "fold (\<lambda>v tr. tr @ [v]) vs xs = xs @ vs"
  by (induction vs arbitrary: xs) simp_all

text \<open>
  C2. After one thread has pushed \<open>v1..vn\<close> into an empty queue, \<open>apply(f)\<close> invokes \<open>f\<close> on
  \<open>v1..vn\<close> in the order of the pushes, returns \<open>n\<close> and leaves the queue empty: the state of
  the callable afterwards is that of calling it on \<open>v1\<close>, then \<open>v2\<close>, and so on, and a
  callable that records its arguments records \<open>v1..vn\<close>.
\<close>

theorem lf_queue_apply_fifo:
  "apply_q func (push_all vs lf_queue_init) st = (length vs, fold func vs st, lf_queue_init)
   \<and> fst (snd (apply_q (\<lambda>v tr. tr @ [v]) (push_all vs lf_queue_init) [])) = vs"
proof -
  let ?q = "push_all vs lf_queue_init"
  have l: "item_list (m_head ?q) = rev vs"
    by (simp add: push_all_list lf_queue_init_def)
  obtain ptr q' where r: "reverse_q ?q = (ptr, q')" by (cases "reverse_q ?q")
  have p: "item_list ptr = vs" and h: "m_head q' = None"
    using reverse_q_list[of ?q] r l by simp_all
  have q': "q' = lf_queue_init" using h by (simp add: lf_queue_init_def)
  show ?thesis
    by (simp add: apply_q_def r apply_loop_list p q' fold_trace)
qed

subsection \<open>lf\_array\<close>

lemma blocks_not_Nil: "blocks a \<noteq> []"
  by (induction a rule: blocks.induct) simp_all

lemma blocks_length_pos: "Suc 0 - length (blocks a) = 0"
  using blocks_not_Nil[of a] by (cases "blocks a") simp_all

lemma blocks_Nil_iff: "(blocks a = []) = False" "([] = blocks a) = False"
  using blocks_not_Nil[of a] by auto

lemma blocks_inject: "blocks a = blocks a' \<Longrightarrow> a = a'"
proof (induction a arbitrary: a' rule: blocks.induct)
  case (1 dat)
  then show ?case
    by (cases a' rule: blocks.cases) (auto simp: blocks_Nil_iff)
next
  case (2 dat nxt)
  then show ?case
    by (cases a' rule: blocks.cases) (auto simp: blocks_Nil_iff)
qed

lemma blocks_new: "blocks (lf_array_new N d) = [replicate N d]"
  by (simp add: lf_array_new_def)

lemma lf_array_at_blocks:
  assumes N: "0 < N"
  shows "\<exists>a'. lf_array_at N d a i = Some (a', i div N, i mod N)
           \<and> blocks a' = blocks a @ replicate (Suc (i div N) - length (blocks a)) (replicate N d)"
proof (induction i arbitrary: a rule: less_induct)
  case (less i)
  show ?case
  proof (cases "i < N")
    case True
    then show ?thesis
      by (subst lf_array_at.simps) (simp add: blocks_length_pos)
  next
    case False
    then have ge: "N \<le> i" by simp
    have dv: "i div N = Suc ((i - N) div N)" using N ge by (rule le_div_geq)
    have md: "i mod N = (i - N) mod N" using ge by (rule le_mod_geq)
    have lt: "i - N < i" using N ge by simp
    obtain dat nxt where a: "a = Block dat nxt" by (cases a)
    show ?thesis
    proof (cases nxt)
      case None
      obtain n' where n': "lf_array_at N d (lf_array_new N d) (i - N) = Some (n', (i - N) div N, (i - N) mod N)"
        and b': "blocks n' = blocks (lf_array_new N d) @ replicate (Suc ((i - N) div N) - length (blocks (lf_array_new N d))) (replicate N d)"
        using less.IH[OF lt, of "lf_array_new N d"] by blast
      have "lf_array_at N d a i = Some (Block dat (Some n'), i div N, i mod N)"
        using False n' by (subst lf_array_at.simps) (simp add: a None dv md)
      moreover have "blocks (Block dat (Some n')) = blocks a @ replicate (Suc (i div N) - length (blocks a)) (replicate N d)"
        using b' by (simp add: a None dv blocks_new replicate_append_same)
      ultimately show ?thesis by blast
    next
      case (Some n)
      obtain n' where n': "lf_array_at N d n (i - N) = Some (n', (i - N) div N, (i - N) mod N)"
        and b': "blocks n' = blocks n @ replicate (Suc ((i - N) div N) - length (blocks n)) (replicate N d)"
        using less.IH[OF lt, of n] by blast
      have "lf_array_at N d a i = Some (Block dat (Some n'), i div N, i mod N)"
        using False n' by (subst lf_array_at.simps) (simp add: a Some dv md)
      moreover have "blocks (Block dat (Some n')) = blocks a @ replicate (Suc (i div N) - length (blocks a)) (replicate N d)"
        using b' by (simp add: a Some dv)
      ultimately show ?thesis by blast
    qed
  qed
qed

lemma lf_array_at_present:
  assumes "0 < N" and "i div N < length (blocks a)"
  shows "lf_array_at N d a i = Some (a, i div N, i mod N)"
proof -
  obtain a' where 1: "lf_array_at N d a i = Some (a', i div N, i mod N)"
    and 2: "blocks a' = blocks a @ replicate (Suc (i div N) - length (blocks a)) (replicate N d)"
    using lf_array_at_blocks[OF assms(1), of d a i] by blast
  have "blocks a' = blocks a" using 2 assms(2) by simp
  then have "a' = a" by (rule blocks_inject)
  then show ?thesis using 1 by simp
qed

text \<open>
  C6. For every index \<open>i\<close>, \<open>operator [](i)\<close> returns, and what it returns is slot \<open>i % N\<close> of
  block number \<open>i / N\<close> of the chain. The chain afterwards is the chain before, followed by
  as many new blocks of \<open>N\<close> default elements as were missing up to that block, so the block
  is there. A second access at the same index resolves to the same slot and leaves the
  chain as it is.
\<close>

theorem lf_array_at_slot:
  assumes "0 < N"
  shows "\<exists>a'. lf_array_at N d a i = Some (a', i div N, i mod N)
           \<and> blocks a' = blocks a @ replicate (Suc (i div N) - length (blocks a)) (replicate N d)
           \<and> i div N < length (blocks a') \<and> i mod N < N
           \<and> lf_array_at N d a' i = Some (a', i div N, i mod N)"
proof -
  obtain a' where 1: "lf_array_at N d a i = Some (a', i div N, i mod N)"
    and 2: "blocks a' = blocks a @ replicate (Suc (i div N) - length (blocks a)) (replicate N d)"
    using lf_array_at_blocks[OF assms, of d a i] by blast
  have 3: "i div N < length (blocks a')" using 2 by simp
  obtain a'' where 4: "lf_array_at N d a' i = Some (a'', i div N, i mod N)"
    and 5: "blocks a'' = blocks a' @ replicate (Suc (i div N) - length (blocks a')) (replicate N d)"
    using lf_array_at_blocks[OF assms, of d a' i] by blast
  have "blocks a'' = blocks a'" using 5 3 by simp
  then have "a'' = a'" by (rule blocks_inject)
  then show ?thesis using 1 2 3 4 assms by auto
qed

theorem lf_array_at_slot_witness:
  "(0::nat) < 2
   \<and> lf_array_at 2 (0::nat) (Block [7, 8] None) 5 = Some (Block [7, 8] (Some (Block [0, 0] (Some (Block [0, 0] None)))), 2, 1)
   \<and> lf_array_at 2 (0::nat) (Block [7, 8] (Some (Block [0, 0] (Some (Block [0, 0] None))))) 5
        = Some (Block [7, 8] (Some (Block [0, 0] (Some (Block [0, 0] None)))), 2, 1)"
proof -
  have e: "lf_array_at 2 (0::nat) (Block [7, 8] None) 5 = Some (Block [7, 8] (Some (Block [0, 0] (Some (Block [0, 0] None)))), 2, 1)"
    by (simp add: lf_array_at.simps lf_array_new_def Let_def numeral_2_eq_2)
  show ?thesis
    using lf_array_at_slot[of 2 "0::nat" "Block [7, 8] None" 5] e by auto
qed

subsection \<open>lf\_hashmap\<close>

lemma slot_rd_blocks:
  "slot_rd a b i =
     (if b < length (blocks a) \<and> i < length (blocks a ! b) then Some (blocks a ! b ! i) else None)"
proof (induction a b i rule: slot_rd.induct)
  case (1 dat nxt i)
  then show ?case by (cases nxt) simp_all
next
  case (2 dat b i)
  then show ?case by simp
next
  case (3 dat nxt b i)
  then show ?case by simp
qed

lemma slot_wr_blocks:
  "blocks (slot_wr a b i v) =
     (if b < length (blocks a) then (blocks a)[b := (blocks a ! b)[i := v]] else blocks a)"
proof (induction a b i v rule: slot_wr.induct)
  case (1 dat nxt i v)
  then show ?case by (cases nxt) simp_all
next
  case (2 dat b i v)
  then show ?case by simp
next
  case (3 dat nxt b i v)
  then show ?case by simp
qed

lemma pos_div: "(p::nat) < Size \<Longrightarrow> (p + j * Size) div Size = j"
  by simp

lemma pos_mod: "(p::nat) < Size \<Longrightarrow> (p + j * Size) mod Size = p"
  by simp

lemma probe_from:
  fixes kd :: 'k and td :: 't
  assumes S: "0 < Size" and p: "p < Size" and k: "k \<noteq> kd" and ok: "table_ok Size arr"
  shows "\<exists>m arr'. j \<le> m
           \<and> probe Size kd td k arr (p + j * Size) = Some (Table_slot m p, arr')
           \<and> (\<forall>i. j \<le> i \<and> i < m \<longrightarrow> probed_key kd arr p i \<noteq> k \<and> probed_key kd arr p i \<noteq> kd)
           \<and> (probed_key kd arr p m = k \<or> probed_key kd arr p m = kd)
           \<and> blocks arr' = claimed Size kd td k arr p m"
proof (induction "length (blocks arr) - j" arbitrary: j rule: less_induct)
  case less
  let ?fresh = "\<lparr>pair_key = kd, pair_value = td\<rparr>"
  let ?pos = "p + j * Size"
  let ?len = "length (blocks arr)"
  obtain a1 where at: "lf_array_at Size ?fresh arr ?pos = Some (a1, j, p)"
    and b1: "blocks a1 = blocks arr @ replicate (Suc j - ?len) (replicate Size ?fresh)"
    using lf_array_at_blocks[OF S, of ?fresh arr ?pos] pos_div[OF p, of j] pos_mod[OF p, of j]
    by auto
  have g1: "blocks a1 = grown Size ?fresh arr (Suc j)" using b1 by (simp add: grown_def)
  have jlt: "j < length (blocks a1)" using b1 by simp
  have ok1: "table_ok Size a1" using ok b1 by (auto simp: table_ok_def list_all_iff)
  then have lenj: "length (blocks a1 ! j) = Size"
    using jlt by (simp add: table_ok_def list_all_length)
  define pair where "pair = blocks a1 ! j ! p"
  have rd: "slot_rd a1 j p = Some pair"
    using jlt lenj p by (simp add: slot_rd_blocks pair_def)
  have key: "pair_key pair = probed_key kd arr p j"
  proof (cases "j < ?len")
    case True
    then show ?thesis using b1 by (simp add: pair_def probed_key_def)
  next
    case False
    then have "blocks a1 ! j = replicate Size ?fresh"
      using b1 by (simp add: nth_append)
    then show ?thesis using False p by (simp add: pair_def probed_key_def)
  qed
  have unf: "probe Size kd td k arr ?pos =
      (if pair_key pair = k then Some (Table_slot j p, a1)
       else if pair_key pair = kd then Some (Table_slot j p, slot_wr a1 j p (pair\<lparr>pair_key := k\<rparr>))
       else probe Size kd td k a1 (?pos + Size))"
    by (subst probe.simps) (simp add: at rd)
  show ?case
  proof (cases "pair_key pair = k")
    case True
    have same: "pair\<lparr>pair_key := k\<rparr> = pair" using True by simp
    have id: "(blocks a1)[j := (blocks a1 ! j)[p := pair]] = blocks a1" by (simp add: pair_def)
    have "blocks a1 = claimed Size kd td k arr p j"
      by (simp add: claimed_def Let_def g1[symmetric] pair_def[symmetric] same id)
    then show ?thesis using True unf key by auto
  next
    case notk: False
    show ?thesis
    proof (cases "pair_key pair = kd")
      case True
      have "blocks (slot_wr a1 j p (pair\<lparr>pair_key := k\<rparr>)) = claimed Size kd td k arr p j"
        using jlt by (simp add: slot_wr_blocks claimed_def Let_def g1[symmetric] pair_def[symmetric])
      then show ?thesis using True notk unf key by auto
    next
      case False
      have inlen: "j < ?len"
      proof (rule ccontr)
        assume "\<not> j < ?len"
        then have "probed_key kd arr p j = kd" by (simp add: probed_key_def)
        then show False using False key by simp
      qed
      then have "blocks a1 = blocks arr" using b1 by simp
      then have a1: "a1 = arr" by (rule blocks_inject)
      have next_pos: "?pos + Size = p + Suc j * Size" by simp
      have step: "probe Size kd td k arr ?pos = probe Size kd td k arr (p + Suc j * Size)"
        using unf notk False unfolding a1 next_pos by simp
      have "?len - Suc j < ?len - j" using inlen by simp
      from less[OF this] obtain m arr' where m: "Suc j \<le> m"
        and r: "probe Size kd td k arr (p + Suc j * Size) = Some (Table_slot m p, arr')"
        and before: "\<forall>i. Suc j \<le> i \<and> i < m \<longrightarrow> probed_key kd arr p i \<noteq> k \<and> probed_key kd arr p i \<noteq> kd"
        and hit: "probed_key kd arr p m = k \<or> probed_key kd arr p m = kd"
        and bl: "blocks arr' = claimed Size kd td k arr p m"
        by blast
      have "\<forall>i. j \<le> i \<and> i < m \<longrightarrow> probed_key kd arr p i \<noteq> k \<and> probed_key kd arr p i \<noteq> kd"
      proof (intro allI impI)
        fix i assume i: "j \<le> i \<and> i < m"
        show "probed_key kd arr p i \<noteq> k \<and> probed_key kd arr p i \<noteq> kd"
        proof (cases "i = j")
          case True
          then show ?thesis using notk False key by simp
        next
          case False
          then have "Suc j \<le> i \<and> i < m" using i by simp
          then show ?thesis using before by blast
        qed
      qed
      moreover have "j \<le> m" using m by simp
      ultimately show ?thesis using step r hit bl by auto
    qed
  qed
qed

lemma length_claimed: "j < length (claimed Size kd td k arr p j)"
  by (simp add: claimed_def grown_def Let_def)

text \<open>
  C5. If \<open>k\<close> is the default-constructed key, \<open>operator [](k)\<close> returns the default-slot value
  and the map is untouched. Otherwise, with \<open>p = hash(k) % Size\<close>, it returns the value of slot
  \<open>p\<close> of block \<open>j\<close>, the slot where position \<open>p + j * Size\<close> resolves, for the first \<open>j\<close> at
  which the probed key is \<open>k\<close> or the default key: no earlier probe found either. Afterwards
  that slot's key is \<open>k\<close> (it was \<open>k\<close> already, or the default key was replaced by \<open>k\<close>), its
  value and every other slot are as before, and the chain has been extended to block \<open>j\<close> if
  it was shorter.
\<close>

theorem hashmap_at_probe:
  fixes kd :: 'k and td :: 't
  shows "(k = kd \<longrightarrow> hashmap_at Size hash kd td k m = Some (Default_slot, m))
   \<and> (k \<noteq> kd \<and> 0 < Size \<and> table_ok Size (m_data_h m) \<longrightarrow>
        (\<exists>j arr'. hashmap_at Size hash kd td k m
                     = Some (Table_slot j (hash k mod Size), m\<lparr>m_data_h := arr'\<rparr>)
           \<and> (\<forall>i<j. probed_key kd (m_data_h m) (hash k mod Size) i \<noteq> k
                    \<and> probed_key kd (m_data_h m) (hash k mod Size) i \<noteq> kd)
           \<and> (probed_key kd (m_data_h m) (hash k mod Size) j = k
                \<or> probed_key kd (m_data_h m) (hash k mod Size) j = kd)
           \<and> blocks arr' = claimed Size kd td k (m_data_h m) (hash k mod Size) j
           \<and> lf_array_at Size \<lparr>pair_key = kd, pair_value = td\<rparr> arr' (hash k mod Size + j * Size)
                = Some (arr', j, hash k mod Size)))"
proof (intro conjI impI)
  assume "k = kd"
  then show "hashmap_at Size hash kd td k m = Some (Default_slot, m)"
    by (simp add: hashmap_at_def)
next
  assume a: "k \<noteq> kd \<and> 0 < Size \<and> table_ok Size (m_data_h m)"
  let ?p = "hash k mod Size"
  have p: "?p < Size" using a by simp
  from a have S: "0 < Size" and k: "k \<noteq> kd" and ok: "table_ok Size (m_data_h m)" by simp_all
  obtain j arr' where r: "probe Size kd td k (m_data_h m) (?p + 0 * Size) = Some (Table_slot j ?p, arr')"
    and before: "\<forall>i. 0 \<le> i \<and> i < j \<longrightarrow> probed_key kd (m_data_h m) ?p i \<noteq> k \<and> probed_key kd (m_data_h m) ?p i \<noteq> kd"
    and hit: "probed_key kd (m_data_h m) ?p j = k \<or> probed_key kd (m_data_h m) ?p j = kd"
    and bl: "blocks arr' = claimed Size kd td k (m_data_h m) ?p j"
    using probe_from[OF S p k ok, where j = 0 and td = td] by blast
  have h: "hashmap_at Size hash kd td k m = Some (Table_slot j ?p, m\<lparr>m_data_h := arr'\<rparr>)"
    using r k by (simp add: hashmap_at_def)
  have "(?p + j * Size) div Size < length (blocks arr')"
    using length_claimed[of j Size kd td k "m_data_h m" ?p] bl pos_div[OF p, of j] by simp
  then have again: "lf_array_at Size \<lparr>pair_key = kd, pair_value = td\<rparr> arr' (?p + j * Size) = Some (arr', j, ?p)"
    using lf_array_at_present[OF S, of "?p + j * Size" arr' "\<lparr>pair_key = kd, pair_value = td\<rparr>"]
      pos_div[OF p, of j] pos_mod[OF p, of j] by simp
  show "\<exists>j arr'. hashmap_at Size hash kd td k m
                     = Some (Table_slot j (hash k mod Size), m\<lparr>m_data_h := arr'\<rparr>)
           \<and> (\<forall>i<j. probed_key kd (m_data_h m) (hash k mod Size) i \<noteq> k
                    \<and> probed_key kd (m_data_h m) (hash k mod Size) i \<noteq> kd)
           \<and> (probed_key kd (m_data_h m) (hash k mod Size) j = k
                \<or> probed_key kd (m_data_h m) (hash k mod Size) j = kd)
           \<and> blocks arr' = claimed Size kd td k (m_data_h m) (hash k mod Size) j
           \<and> lf_array_at Size \<lparr>pair_key = kd, pair_value = td\<rparr> arr' (hash k mod Size + j * Size)
                = Some (arr', j, hash k mod Size)"
    using h before hit bl again by blast
qed

lemma hm_eval1:
  "hashmap_at 2 (\<lambda>k. k) (0::nat) (0::nat) 5
      \<lparr>m_data_h = Block [\<lparr>pair_key = 0, pair_value = 0\<rparr>, \<lparr>pair_key = 3, pair_value = 7\<rparr>] None,
       m_default_key_data = 9::nat\<rparr>
    = Some (Table_slot 1 1,
      \<lparr>m_data_h = Block [\<lparr>pair_key = 0, pair_value = 0\<rparr>, \<lparr>pair_key = 3, pair_value = 7\<rparr>]
                    (Some (Block [\<lparr>pair_key = 0, pair_value = 0\<rparr>, \<lparr>pair_key = 5, pair_value = 0\<rparr>] None)),
       m_default_key_data = 9\<rparr>)"
proof -
  let ?T = "Block [\<lparr>pair_key = 0::nat, pair_value = 0::nat\<rparr>, \<lparr>pair_key = 3, pair_value = 7\<rparr>] None"
  have e1: "probe 2 0 0 5 ?T (Suc 0) = probe 2 0 0 5 ?T (Suc (Suc (Suc 0)))"
    by (subst probe.simps) (simp add: lf_array_at.simps)
  have e2: "probe 2 0 0 5 ?T (Suc (Suc (Suc 0))) = Some (Table_slot (Suc 0) (Suc 0),
       Block [\<lparr>pair_key = 0, pair_value = 0\<rparr>, \<lparr>pair_key = 3, pair_value = 7\<rparr>]
                    (Some (Block [\<lparr>pair_key = 0, pair_value = 0\<rparr>, \<lparr>pair_key = 5, pair_value = 0\<rparr>] None)))"
    by (subst probe.simps) (simp add: lf_array_at.simps lf_array_new_def Let_def numeral_2_eq_2)
  show ?thesis by (simp add: hashmap_at_def e1 e2)
qed

theorem hashmap_at_probe_witness:
  "hashmap_at 2 (\<lambda>k. k) (0::nat) (0::nat) 0
      \<lparr>m_data_h = Block [\<lparr>pair_key = 0, pair_value = 0\<rparr>, \<lparr>pair_key = 3, pair_value = 7\<rparr>] None,
       m_default_key_data = 9::nat\<rparr>
    = Some (Default_slot,
      \<lparr>m_data_h = Block [\<lparr>pair_key = 0, pair_value = 0\<rparr>, \<lparr>pair_key = 3, pair_value = 7\<rparr>] None,
       m_default_key_data = 9\<rparr>)
   \<and> (5::nat) \<noteq> 0 \<and> (0::nat) < 2
   \<and> table_ok 2 (Block [\<lparr>pair_key = 0::nat, pair_value = 0::nat\<rparr>, \<lparr>pair_key = 3, pair_value = 7\<rparr>] None)
   \<and> hashmap_at 2 (\<lambda>k. k) (0::nat) (0::nat) 5
      \<lparr>m_data_h = Block [\<lparr>pair_key = 0, pair_value = 0\<rparr>, \<lparr>pair_key = 3, pair_value = 7\<rparr>] None,
       m_default_key_data = 9::nat\<rparr>
    = Some (Table_slot 1 1,
      \<lparr>m_data_h = Block [\<lparr>pair_key = 0, pair_value = 0\<rparr>, \<lparr>pair_key = 3, pair_value = 7\<rparr>]
                    (Some (Block [\<lparr>pair_key = 0, pair_value = 0\<rparr>, \<lparr>pair_key = 5, pair_value = 0\<rparr>] None)),
       m_default_key_data = 9\<rparr>)
   \<and> probed_key (0::nat) (Block [\<lparr>pair_key = 0::nat, pair_value = 0::nat\<rparr>, \<lparr>pair_key = 3, pair_value = 7\<rparr>] None) 1 0 = 3
   \<and> probed_key (0::nat) (Block [\<lparr>pair_key = 0::nat, pair_value = 0::nat\<rparr>, \<lparr>pair_key = 3, pair_value = 7\<rparr>] None) 1 1 = 0"
  using
    hashmap_at_probe[where k = "0::nat" and kd = "0::nat" and td = "0::nat" and Size = 2 and hash = "\<lambda>k. k"
      and m = "\<lparr>m_data_h = Block [\<lparr>pair_key = 0, pair_value = 0\<rparr>, \<lparr>pair_key = 3, pair_value = 7\<rparr>] None,
       m_default_key_data = 9::nat\<rparr>"]
    hashmap_at_probe[where k = "5::nat" and kd = "0::nat" and td = "0::nat" and Size = 2 and hash = "\<lambda>k. k"
      and m = "\<lparr>m_data_h = Block [\<lparr>pair_key = 0, pair_value = 0\<rparr>, \<lparr>pair_key = 3, pair_value = 7\<rparr>] None,
       m_default_key_data = 9::nat\<rparr>"]
    hm_eval1
  by (simp add: table_ok_def probed_key_def)

end
